theory Spec2Isabelle
  imports Main
begin

section \<open>The event bus \<open>CoreEvents\<close>: values, handlers, state\<close>

text \<open>
  The payload of an event is an arbitrary JavaScript value (\<open>unknown\<close> in the source).
  The bus looks at a payload in two ways only: it tests its truthiness (\<open>data || {}\<close>)
  and it reads or writes its \<open>siteId\<close> property.  A payload is therefore \<open>undefined\<close>,
  \<open>null\<close>, a primitive, or an object with an optional \<open>siteId\<close> (a string, as
  \<open>CoreEventSiteData\<close> declares it) and the rest of its contents \<open>'a\<close>.
  Numbers are the integral ones (\<open>NaN\<close>, which is falsy too, is left out); objects are
  plain, extensible objects, taken by their contents: the identity of a payload object
  and its sharing between calls are not part of the model.
\<close>

datatype 'a payload =
    JSUndefined
  | JSNull
  | JSBool bool
  | JSNum int
  | JSStr string
  | JSObj "string option" 'a

datatype error = TypeError

text \<open>JavaScript truthiness of a payload and of an optional string argument.\<close>

fun truthy :: "'a payload \<Rightarrow> bool" where
  "truthy JSUndefined = False"
| "truthy JSNull = False"
| "truthy (JSBool b) = b"
| "truthy (JSNum n) = (n \<noteq> 0)"
| "truthy (JSStr s) = (s \<noteq> [])"
| "truthy (JSObj sid rest) = True"

fun truthy_string :: "string option \<Rightarrow> bool" where
  "truthy_string None = False"
| "truthy_string (Some s) = (s \<noteq> [])"

text \<open>
  \<open>Object.assign(data || {}, { siteId })\<close>, as the value of \<open>data\<close> afterwards.  A truthy
  object receives the property (an existing \<open>siteId\<close> is overwritten).  A falsy \<open>data\<close>
  makes the target a fresh \<open>{}\<close>, and a truthy primitive is wrapped in a temporary
  object: in both cases the target is dropped and \<open>data\<close> is what it was.
\<close>

definition assign_siteId :: "'a payload \<Rightarrow> string \<Rightarrow> 'a payload" where
  "assign_siteId data siteId =
     (if truthy data
      then (case data of JSObj old rest \<Rightarrow> JSObj (Some siteId) rest | _ \<Rightarrow> data)
      else data)"

text \<open>
  The first statement of both \<open>trigger\<close> and \<open>triggerUnique\<close>:
  \<open>if (siteId) { Object.assign(data || {}, { siteId }); }\<close>.
\<close>

definition tag_siteId :: "'a payload \<Rightarrow> string option \<Rightarrow> 'a payload" where
  "tag_siteId data siteId =
     (case siteId of
        None \<Rightarrow> data
      | Some sid \<Rightarrow> if truthy_string (Some sid) then assign_siteId data sid else data)"

text \<open>
  Reading \<open>value.siteId\<close>: a \<open>TypeError\<close> on \<open>undefined\<close> and \<open>null\<close>, \<open>undefined\<close>
  (here \<open>None\<close>) on a primitive and on an object without the property.
\<close>

fun get_siteId :: "'a payload \<Rightarrow> error + string option" where
  "get_siteId JSUndefined = Inl TypeError"
| "get_siteId JSNull = Inl TypeError"
| "get_siteId (JSObj sid rest) = Inr sid"
| "get_siteId v = Inr None"

text \<open>
  A live subscription: the function that \<open>on\<close> passes to \<open>Subject.subscribe\<close>, with the
  \<open>callBack\<close> and the \<open>siteId\<close> it closes over.  Callbacks are opaque (\<open>'cb\<close>): the
  model records each call of one and assumes that a callback returns normally and does
  not call back into the bus.  \<open>sub_id\<close> stands for the identity of the rxjs
  \<open>Subscription\<close>; \<open>on\<close> draws it from a counter, so it is also the rank of the
  registration.
\<close>

record 'cb subscriber =
  sub_id :: nat
  callBack :: 'cb
  siteScope :: "string option"

datatype outcome = Called | Skipped | Raised error

text \<open>
  The body of the subscribed function:
  \<open>if (!siteId || value.siteId == siteId) { callBack(value); }\<close>.
  \<open>||\<close> does not evaluate \<open>value.siteId\<close> when there is no site to check.
\<close>

definition subscription_next :: "'cb subscriber \<Rightarrow> 'a payload \<Rightarrow> outcome" where
  "subscription_next ob v =
     (if \<not> truthy_string (siteScope ob) then Called
      else (case get_siteId v of
              Inl e \<Rightarrow> Raised e
            | Inr sid \<Rightarrow> if sid = siteScope ob then Called else Skipped))"

text \<open>
  Modelled from the spec: \<open>Subject\<close> of the rxjs library, which is not part of the
  sources.  A subject keeps its subscribers in the order of their subscription,
  \<open>next\<close> calls them synchronously in that order, \<open>unsubscribe\<close> removes one and keeps
  the order of the others.  What a subject does when a subscribed function raises is
  that of section 5 of the spec: the delivery to the subscribers after it is interrupted
  and the error is that of the call (no containment).  A delivery is logged as the
  subscription, the callback and the value it was called with.
\<close>

type_synonym ('cb, 'a) delivery = "nat \<times> 'cb \<times> 'a payload"

fun subject_next ::
  "'cb subscriber list \<Rightarrow> 'a payload \<Rightarrow> ('cb, 'a) delivery list \<times> (error + unit)" where
  "subject_next [] v = ([], Inr ())"
| "subject_next (ob # obs) v =
     (case subscription_next ob v of
        Raised e \<Rightarrow> ([], Inl e)
      | Skipped \<Rightarrow> subject_next obs v
      | Called \<Rightarrow>
          (case subject_next obs v of
             (calls, r) \<Rightarrow> ((sub_id ob, callBack ob, v) # calls, r)))"

definition subject_unsubscribe :: "nat \<Rightarrow> 'cb subscriber list \<Rightarrow> 'cb subscriber list" where
  "subject_unsubscribe i obs = filter (\<lambda>ob. sub_id ob \<noteq> i) obs"

text \<open>
  The two static tables are object literals \<open>{}\<close> indexed by the event name, so a
  lookup \<open>table[eventName]\<close> also finds what every object inherits from
  \<open>Object.prototype\<close>.  These names are those of the ECMAScript standard (with its
  Annex B); each of them holds a function, or for \<open>__proto__\<close> the prototype object:
  a truthy value that is not \<open>undefined\<close> and has neither \<open>data\<close>, \<open>next\<close> nor
  \<open>subscribe\<close>.
\<close>

definition object_prototype_keys :: "string list" where
  "object_prototype_keys =
     [''constructor'', ''hasOwnProperty'', ''isPrototypeOf'', ''propertyIsEnumerable'',
      ''toLocaleString'', ''toString'', ''valueOf'', ''__proto__'',
      ''__defineGetter__'', ''__defineSetter__'', ''__lookupGetter__'', ''__lookupSetter__'']"

datatype 'v property = Own 'v | Inherited | Missing

definition js_get :: "(string \<rightharpoonup> 'v) \<Rightarrow> string \<Rightarrow> 'v property" where
  "js_get table key =
     (case table key of
        Some v \<Rightarrow> Own v
      | None \<Rightarrow> if key \<in> set object_prototype_keys then Inherited else Missing)"

text \<open>
  The state of the class: \<open>observables\<close> (a subject per event name, here the list of its
  subscribers), \<open>uniqueEvents\<close> (the record \<open>{ data }\<close> per event name, here its
  \<open>data\<close>) and the counter of subscriptions.
\<close>

record ('cb, 'a) CoreEvents =
  observables :: "string \<rightharpoonup> 'cb subscriber list"
  uniqueEvents :: "string \<rightharpoonup> 'a payload"
  next_sub :: nat

definition no_events :: "('cb, 'a) CoreEvents" where
  "no_events = \<lparr>observables = Map.empty, uniqueEvents = Map.empty, next_sub = 0\<rparr>"

text \<open>
  \<open>CoreEventObserver\<close>: the object with the \<open>off\<close> function.  \<open>on\<close> returns the fake
  observer or one that unsubscribes its subscription; \<open>onMultiple\<close> returns one that
  calls \<open>off\<close> on each observer it holds.
\<close>

datatype CoreEventObserver =
    FakeObserver
  | SubscriptionObserver string nat
  | MultipleObserver "CoreEventObserver list"

section \<open>The operations\<close>

text \<open>
  Every operation returns the new state, the calls of callbacks it made, and its
  result: \<open>Inl\<close> an error that was raised, \<open>Inr\<close> the value returned.  \<open>on\<close> calls the
  callback itself when it replays a unique event: such a call is logged as the callback
  and its argument.  The calls of \<open>logger.debug\<close> are left out.
\<close>

type_synonym ('cb, 'a) replay = "'cb \<times> 'a payload"

definition on ::
  "('cb, 'a) CoreEvents \<Rightarrow> string \<Rightarrow> 'cb \<Rightarrow> string option \<Rightarrow>
     ('cb, 'a) CoreEvents \<times> ('cb, 'a) replay list \<times> (error + CoreEventObserver)" where
  "on s eventName cb siteId =
     (case js_get (uniqueEvents s) eventName of
        Own d \<Rightarrow> (s, [(cb, d)], Inr FakeObserver)
      | Inherited \<Rightarrow> (s, [(cb, JSUndefined)], Inr FakeObserver)
      | Missing \<Rightarrow>
          (let s1 = (case js_get (observables s) eventName of
                       Missing \<Rightarrow> s\<lparr>observables := (observables s)(eventName \<mapsto> [])\<rparr>
                     | _ \<Rightarrow> s)
           in (case js_get (observables s1) eventName of
                 Own obs \<Rightarrow>
                   (s1\<lparr>observables := (observables s1)(eventName \<mapsto>
                          obs @ [\<lparr>sub_id = next_sub s1, callBack = cb, siteScope = siteId\<rparr>]),
                        next_sub := Suc (next_sub s1)\<rparr>,
                    [], Inr (SubscriptionObserver eventName (next_sub s1)))
               | _ \<Rightarrow> (s1, [], Inl TypeError))))"

text \<open>
  \<open>off\<close> of an observer.  The subject of an event name is created once and never
  replaced, so the subscription is found again under its event name.
\<close>

fun off :: "('cb, 'a) CoreEvents \<Rightarrow> CoreEventObserver \<Rightarrow> ('cb, 'a) CoreEvents" where
  "off s FakeObserver = s"
| "off s (SubscriptionObserver eventName i) =
     (case observables s eventName of
        None \<Rightarrow> s
      | Some obs \<Rightarrow> s\<lparr>observables := (observables s)(eventName \<mapsto> subject_unsubscribe i obs)\<rparr>)"
| "off s (MultipleObserver observers) = fold (\<lambda>ob t. off t ob) observers s"

text \<open>
  \<open>eventNames.map((name) => this.on(name, callBack, siteId))\<close>: the calls of \<open>on\<close> from
  left to right, each on the state the one before left.
\<close>

fun on_each ::
  "('cb, 'a) CoreEvents \<Rightarrow> string list \<Rightarrow> 'cb \<Rightarrow> string option \<Rightarrow>
     ('cb, 'a) CoreEvents \<times> ('cb, 'a) replay list \<times> (error + CoreEventObserver list)" where
  "on_each s [] cb siteId = (s, [], Inr [])"
| "on_each s (name # names) cb siteId =
     (case on s name cb siteId of
        (s1, calls1, Inl e) \<Rightarrow> (s1, calls1, Inl e)
      | (s1, calls1, Inr observer) \<Rightarrow>
          (case on_each s1 names cb siteId of
             (s2, calls2, Inl e) \<Rightarrow> (s2, calls1 @ calls2, Inl e)
           | (s2, calls2, Inr observers) \<Rightarrow> (s2, calls1 @ calls2, Inr (observer # observers))))"

definition onMultiple ::
  "('cb, 'a) CoreEvents \<Rightarrow> string list \<Rightarrow> 'cb \<Rightarrow> string option \<Rightarrow>
     ('cb, 'a) CoreEvents \<times> ('cb, 'a) replay list \<times> (error + CoreEventObserver)" where
  "onMultiple s eventNames cb siteId =
     (case on_each s eventNames cb siteId of
        (s1, calls, Inl e) \<Rightarrow> (s1, calls, Inl e)
      | (s1, calls, Inr observers) \<Rightarrow> (s1, calls, Inr (MultipleObserver observers)))"

definition trigger ::
  "('cb, 'a) CoreEvents \<Rightarrow> string \<Rightarrow> 'a payload \<Rightarrow> string option \<Rightarrow>
     ('cb, 'a) CoreEvents \<times> ('cb, 'a) delivery list \<times> (error + unit)" where
  "trigger s eventName data siteId =
     (case js_get (observables s) eventName of
        Missing \<Rightarrow> (s, [], Inr ())
      | Own obs \<Rightarrow>
          (case subject_next obs (tag_siteId data siteId) of (calls, r) \<Rightarrow> (s, calls, r))
      | Inherited \<Rightarrow> (s, [], Inl TypeError))"

definition triggerUnique ::
  "('cb, 'a) CoreEvents \<Rightarrow> string \<Rightarrow> 'a payload \<Rightarrow> string option \<Rightarrow>
     ('cb, 'a) CoreEvents \<times> ('cb, 'a) delivery list \<times> (error + unit)" where
  "triggerUnique s eventName data siteId =
     (case js_get (uniqueEvents s) eventName of
        Missing \<Rightarrow>
          (let s1 = s\<lparr>uniqueEvents := (uniqueEvents s)(eventName \<mapsto> tag_siteId data siteId)\<rparr>
           in (case js_get (observables s1) eventName of
                 Missing \<Rightarrow> (s1, [], Inr ())
               | Own obs \<Rightarrow>
                   (case subject_next obs (tag_siteId data siteId) of
                      (calls, r) \<Rightarrow> (s1, calls, r))
               | Inherited \<Rightarrow> (s1, [], Inl TypeError)))
      | _ \<Rightarrow> (s, [], Inr ()))"

text \<open>A use of the bus is a sequence of calls; \<open>run\<close> gives the state it leaves.\<close>

datatype ('cb, 'a) call =
    On string 'cb "string option"
  | OnMultiple "string list" 'cb "string option"
  | Trigger string "'a payload" "string option"
  | TriggerUnique string "'a payload" "string option"
  | Off CoreEventObserver

fun step :: "('cb, 'a) CoreEvents \<Rightarrow> ('cb, 'a) call \<Rightarrow> ('cb, 'a) CoreEvents" where
  "step s (On eventName cb siteId) = fst (on s eventName cb siteId)"
| "step s (OnMultiple eventNames cb siteId) = fst (onMultiple s eventNames cb siteId)"
| "step s (Trigger eventName data siteId) = fst (trigger s eventName data siteId)"
| "step s (TriggerUnique eventName data siteId) = fst (triggerUnique s eventName data siteId)"
| "step s (Off observer) = off s observer"

definition run :: "('cb, 'a) CoreEvents \<Rightarrow> ('cb, 'a) call list \<Rightarrow> ('cb, 'a) CoreEvents" where
  "run s calls = foldl step s calls"

text \<open>
  The subscribers of an event name, in the order of their subscription (none when the
  subject does not exist yet).
\<close>

definition subscribers :: "('cb, 'a) CoreEvents \<Rightarrow> string \<Rightarrow> 'cb subscriber list" where
  "subscribers s eventName = (case observables s eventName of None \<Rightarrow> [] | Some obs \<Rightarrow> obs)"

text \<open>
  The invariant of the subscription counter: on every subject the subscriptions are
  listed by increasing \<open>sub_id\<close>, all below the counter.  No two subscriptions of a
  subject then share their \<open>sub_id\<close>.
\<close>

definition ids_in_order :: "('cb, 'a) CoreEvents \<Rightarrow> bool" where
  "ids_in_order s =
     (\<forall>eventName obs. observables s eventName = Some obs \<longrightarrow>
        sorted_wrt (<) (map sub_id obs) \<and> (\<forall>ob \<in> set obs. sub_id ob < next_sub s))"

text \<open>Two states of the bus used as examples: three subscribers, and one.\<close>

definition three_subscribers :: "(nat, unit) CoreEvents" where
  "three_subscribers =
     run no_events [On ''login'' 1 None, On ''login'' 2 (Some ''site1''), On ''login'' 3 (Some ''site2'')]"


section \<open>The route table: \<open>buildAppRoutes\<close>\<close>

text \<open>
  \<open>buildAppRoutes\<close> changes the route objects it is given: it assigns to their
  \<open>canLoad\<close> and \<open>canActivate\<close> and pushes to the arrays these hold, and it returns the
  same objects.  Two routes may hold the same array, and one route object may be
  contributed twice, so routes and guard arrays live in a store, by reference.  A guard
  is \<open>CoreRedirectGuard\<close> or any other guard; a route has its two guard arrays
  (\<open>None\<close> for \<open>undefined\<close> and \<open>null\<close>, which \<open>??\<close> treats alike) and the rest of its
  fields, \<open>other\<close>.  Routes and arrays are ordinary objects that can be written to
  (none is frozen).
\<close>

datatype 'g guard = CoreRedirectGuard | OtherGuard 'g

record 'r route =
  canLoad :: "nat option"
  canActivate :: "nat option"
  other :: 'r

record ('g, 'r) heap =
  route_at :: "nat \<rightharpoonup> 'r route"
  array_at :: "nat \<rightharpoonup> 'g guard list"
  next_array :: nat

text \<open>
  Modelled from the spec: \<open>CoreArray.flatten\<close> of \<open>@singletons/array\<close>, which is not part
  of the sources.  The routing layer "merges route contributions from feature modules":
  the arrays of routes that the modules contributed become one array, in their order.
\<close>

definition flatten :: "'a list list \<Rightarrow> 'a list" where
  "flatten arr = concat arr"

text \<open>The array literal \<open>[]\<close> makes a new array; \<open>array.push(g)\<close> adds \<open>g\<close> at its end.\<close>

definition new_array :: "('g, 'r) heap \<Rightarrow> ('g, 'r) heap \<times> nat" where
  "new_array h =
     (h\<lparr>array_at := (array_at h)(next_array h \<mapsto> []), next_array := Suc (next_array h)\<rparr>,
      next_array h)"

definition push :: "('g, 'r) heap \<Rightarrow> nat \<Rightarrow> 'g guard \<Rightarrow> ('g, 'r) heap" where
  "push h l g =
     (case array_at h l of
        None \<Rightarrow> h
      | Some gs \<Rightarrow> h\<lparr>array_at := (array_at h)(l \<mapsto> gs @ [g])\<rparr>)"

text \<open>
  The four statements of the function that \<open>buildAppRoutes\<close> maps over the routes:
  \<open>route.canLoad = route.canLoad ?? []\<close>, \<open>route.canActivate = route.canActivate ?? []\<close>,
  \<open>route.canLoad.push(CoreRedirectGuard)\<close>, \<open>route.canActivate.push(CoreRedirectGuard)\<close>.
  An address without a route or an array is left alone: the store of a JavaScript
  program has none (see \<open>well_formed\<close>).
\<close>

definition default_canLoad :: "('g, 'r) heap \<Rightarrow> nat \<Rightarrow> ('g, 'r) heap" where
  "default_canLoad h a =
     (case route_at h a of
        None \<Rightarrow> h
      | Some r \<Rightarrow>
          (case canLoad r of
             Some l \<Rightarrow> h
           | None \<Rightarrow>
               (case new_array h of
                  (h1, l) \<Rightarrow> h1\<lparr>route_at := (route_at h1)(a \<mapsto> r\<lparr>canLoad := Some l\<rparr>)\<rparr>)))"

definition default_canActivate :: "('g, 'r) heap \<Rightarrow> nat \<Rightarrow> ('g, 'r) heap" where
  "default_canActivate h a =
     (case route_at h a of
        None \<Rightarrow> h
      | Some r \<Rightarrow>
          (case canActivate r of
             Some l \<Rightarrow> h
           | None \<Rightarrow>
               (case new_array h of
                  (h1, l) \<Rightarrow> h1\<lparr>route_at := (route_at h1)(a \<mapsto> r\<lparr>canActivate := Some l\<rparr>)\<rparr>)))"

definition push_canLoad :: "('g, 'r) heap \<Rightarrow> nat \<Rightarrow> ('g, 'r) heap" where
  "push_canLoad h a =
     (case route_at h a of
        None \<Rightarrow> h
      | Some r \<Rightarrow> (case canLoad r of None \<Rightarrow> h | Some l \<Rightarrow> push h l CoreRedirectGuard))"

definition push_canActivate :: "('g, 'r) heap \<Rightarrow> nat \<Rightarrow> ('g, 'r) heap" where
  "push_canActivate h a =
     (case route_at h a of
        None \<Rightarrow> h
      | Some r \<Rightarrow> (case canActivate r of None \<Rightarrow> h | Some l \<Rightarrow> push h l CoreRedirectGuard))"

definition guard_route :: "('g, 'r) heap \<Rightarrow> nat \<Rightarrow> ('g, 'r) heap" where
  "guard_route h a =
     push_canActivate (push_canLoad (default_canActivate (default_canLoad h a) a) a) a"

text \<open>
  \<open>buildAppRoutes\<close>: the contributions (what the injector gives for \<open>APP_ROUTES\<close>, or
  \<open>[]\<close>) are flattened and \<open>map\<close> calls the function on each route from left to right; it
  returns the routes it was given, so the new array holds the same route objects.
\<close>

definition buildAppRoutes :: "('g, 'r) heap \<Rightarrow> nat list list \<Rightarrow> ('g, 'r) heap \<times> nat list" where
  "buildAppRoutes h contributed =
     (let appRoutes = flatten contributed
      in (fold (\<lambda>a h'. guard_route h' a) appRoutes h, appRoutes))"

text \<open>
  What a reader of a route sees: the contents of its two guard arrays and its other
  fields.  \<open>with_guard\<close> is the guard list the claim describes (the list, or the empty
  one when absent, with \<open>CoreRedirectGuard\<close> at its end); \<open>guarded_times\<close> has the guard
  several times at the end.
\<close>

definition deref :: "('g, 'r) heap \<Rightarrow> nat option \<Rightarrow> 'g guard list option" where
  "deref h ref = (case ref of None \<Rightarrow> None | Some l \<Rightarrow> array_at h l)"

definition view ::
  "('g, 'r) heap \<Rightarrow> nat \<Rightarrow> ('g guard list option \<times> 'g guard list option \<times> 'r) option" where
  "view h a =
     (case route_at h a of
        None \<Rightarrow> None
      | Some r \<Rightarrow> Some (deref h (canLoad r), deref h (canActivate r), other r))"

definition guards_or_empty :: "'g guard list option \<Rightarrow> 'g guard list" where
  "guards_or_empty guards = (case guards of None \<Rightarrow> [] | Some gs \<Rightarrow> gs)"

definition with_guard :: "'g guard list option \<Rightarrow> 'g guard list option" where
  "with_guard guards = Some ((case guards of None \<Rightarrow> [] | Some gs \<Rightarrow> gs) @ [CoreRedirectGuard])"

definition guarded ::
  "'g guard list option \<times> 'g guard list option \<times> 'r \<Rightarrow>
   'g guard list option \<times> 'g guard list option \<times> 'r" where
  "guarded v = (case v of (load, activate, rest) \<Rightarrow> (with_guard load, with_guard activate, rest))"

definition guarded_times ::
  "nat \<Rightarrow> nat \<Rightarrow> 'g guard list option \<times> 'g guard list option \<times> 'r \<Rightarrow>
   'g guard list option \<times> 'g guard list option \<times> 'r" where
  "guarded_times k1 k2 v =
     (case v of (load, activate, rest) \<Rightarrow>
        (Some (guards_or_empty load @ replicate k1 CoreRedirectGuard),
         Some (guards_or_empty activate @ replicate k2 CoreRedirectGuard), rest))"

text \<open>
  A store is well formed when every guard array a route refers to exists and all arrays
  lie below the allocation counter.  It is unshared when no two routes, and no two
  fields of one route, hold the same array.
\<close>

definition uses :: "'r route \<Rightarrow> nat \<Rightarrow> bool" where
  "uses r l = (canLoad r = Some l \<or> canActivate r = Some l)"

definition well_formed :: "('g, 'r) heap \<Rightarrow> bool" where
  "well_formed h =
     ((\<forall>a r l. route_at h a = Some r \<longrightarrow> uses r l \<longrightarrow> array_at h l \<noteq> None)
      \<and> (\<forall>l. array_at h l \<noteq> None \<longrightarrow> l < next_array h))"

definition unshared :: "('g, 'r) heap \<Rightarrow> bool" where
  "unshared h =
     ((\<forall>a r. route_at h a = Some r \<longrightarrow> canLoad r = None \<or> canLoad r \<noteq> canActivate r)
      \<and> (\<forall>a b ra rb l. route_at h a = Some ra \<longrightarrow> route_at h b = Some rb \<longrightarrow> a \<noteq> b \<longrightarrow>
            uses ra l \<longrightarrow> \<not> uses rb l))"

text \<open>
  The arrays a route holds after the function ran on it, those it had or new ones, and
  how many times the function pushes to an array.
\<close>

definition load_ref :: "('g, 'r) heap \<Rightarrow> 'r route \<Rightarrow> nat" where
  "load_ref h r = (case canLoad r of Some l \<Rightarrow> l | None \<Rightarrow> next_array h)"

definition activate_ref :: "('g, 'r) heap \<Rightarrow> 'r route \<Rightarrow> nat" where
  "activate_ref h r =
     (case canActivate r of
        Some l \<Rightarrow> l
      | None \<Rightarrow> if canLoad r = None then Suc (next_array h) else next_array h)"

definition fresh_count :: "'r route \<Rightarrow> nat" where
  "fresh_count r = (if canLoad r = None then 1 else 0) + (if canActivate r = None then 1 else 0)"

definition pushes :: "('g, 'r) heap \<Rightarrow> 'r route \<Rightarrow> nat \<Rightarrow> nat" where
  "pushes h r l = (if l = load_ref h r then 1 else 0) + (if l = activate_ref h r then 1 else 0)"

text \<open>
  How the store evolves: routes stay, with their other fields and the arrays they had (a
  field that had none may get a new array), and arrays only grow by \<open>CoreRedirectGuard\<close>
  at their end.  \<open>appended h h' a\<close>: in \<open>h'\<close> both arrays of route \<open>a\<close> are what they were
  in \<open>h\<close> (or empty) followed by the guard, at least once.
\<close>

definition kept :: "('g, 'r) heap \<Rightarrow> nat option \<Rightarrow> nat option \<Rightarrow> bool" where
  "kept h ref ref' =
     ((ref \<noteq> None \<longrightarrow> ref' = ref) \<and> (ref = None \<longrightarrow> (\<forall>l. ref' = Some l \<longrightarrow> array_at h l = None)))"

definition grows :: "('g, 'r) heap \<Rightarrow> ('g, 'r) heap \<Rightarrow> bool" where
  "grows h h' =
     ((\<forall>a. route_at h a = None \<longrightarrow> route_at h' a = None)
      \<and> (\<forall>a r. route_at h a = Some r \<longrightarrow>
            (\<exists>r'. route_at h' a = Some r' \<and> other r' = other r
               \<and> kept h (canLoad r) (canLoad r') \<and> kept h (canActivate r) (canActivate r')))
      \<and> (\<forall>l. array_at h l = None \<longrightarrow>
            array_at h' l = None \<or> (\<exists>k. array_at h' l = Some (replicate k CoreRedirectGuard)))
      \<and> (\<forall>l gs. array_at h l = Some gs \<longrightarrow>
            (\<exists>k. array_at h' l = Some (gs @ replicate k CoreRedirectGuard))))"

definition appended :: "('g, 'r) heap \<Rightarrow> ('g, 'r) heap \<Rightarrow> nat \<Rightarrow> bool" where
  "appended h h' a =
     (\<exists>r' l1 l2 k1 k2. route_at h' a = Some r' \<and> canLoad r' = Some l1 \<and> canActivate r' = Some l2
        \<and> array_at h' l1
            = Some (guards_or_empty (array_at h l1) @ replicate (Suc k1) CoreRedirectGuard)
        \<and> array_at h' l2
            = Some (guards_or_empty (array_at h l2) @ replicate (Suc k2) CoreRedirectGuard))"

text \<open>
  Two stores used as examples: three separate routes, and one route whose two fields
  share an array.
\<close>

definition three_routes :: "(string, string) heap" where
  "three_routes =
     \<lparr>route_at = [0 \<mapsto> \<lparr>canLoad = Some 0, canActivate = None, other = ''home''\<rparr>,
                  1 \<mapsto> \<lparr>canLoad = None, canActivate = None, other = ''login''\<rparr>,
                  2 \<mapsto> \<lparr>canLoad = Some 1, canActivate = Some 2, other = ''settings''\<rparr>],
      array_at = [0 \<mapsto> [OtherGuard ''auth''], 1 \<mapsto> [], 2 \<mapsto> [OtherGuard ''site'']],
      next_array = 3\<rparr>"

definition shared_route :: "(string, string) heap" where
  "shared_route =
     \<lparr>route_at = [0 \<mapsto> \<lparr>canLoad = Some 0, canActivate = Some 0, other = ''home''\<rparr>],
      array_at = [0 \<mapsto> [OtherGuard ''auth'']],
      next_array = 1\<rparr>"

section \<open>Delivery by a subject\<close>

lemma error_is_TypeError: "(e :: error) = TypeError"
  by (cases e) simp

lemma subject_next_calls:
  "fst (subject_next obs v) =
     map (\<lambda>ob. (sub_id ob, callBack ob, v))
       (filter (\<lambda>ob. subscription_next ob v = Called)
          (takeWhile (\<lambda>ob. subscription_next ob v \<noteq> Raised TypeError) obs))"
proof (induction obs)
  case Nil
  show ?case by simp
next
  case (Cons ob obs)
  show ?case
  proof (cases "subscription_next ob v")
    case Called
    with Cons show ?thesis by (simp add: case_prod_beta)
  next
    case Skipped
    with Cons show ?thesis by simp
  next
    case (Raised e)
    then show ?thesis by (simp add: error_is_TypeError [of e])
  qed
qed






lemma fst_trigger: "fst (trigger s eventName data siteId) = s"
  by (simp add: trigger_def split: property.splits prod.splits)










section \<open>Registration and the subscription counter\<close>

lemma ids_in_order_no_events: "ids_in_order no_events"
  by (simp add: ids_in_order_def no_events_def)

lemma on_result:
  "js_get (uniqueEvents s) eventName = Missing \<Longrightarrow>
     on s eventName cb siteId =
       (s\<lparr>observables := (observables s)(eventName \<mapsto>
             subscribers s eventName @ [\<lparr>sub_id = next_sub s, callBack = cb, siteScope = siteId\<rparr>]),
          next_sub := Suc (next_sub s)\<rparr>,
        [], Inr (SubscriptionObserver eventName (next_sub s)))"
  by (auto simp: on_def Let_def js_get_def subscribers_def split: option.splits if_splits)

lemma on_never_raises: "snd (snd (on s eventName cb siteId)) \<noteq> Inl e"
proof (cases "js_get (uniqueEvents s) eventName")
  case (Own d)
  then show ?thesis by (simp add: on_def)
next
  case Inherited
  then show ?thesis by (simp add: on_def)
next
  case Missing
  then show ?thesis by (simp add: on_result)
qed

lemma ids_in_order_on:
  assumes "ids_in_order s"
  shows "ids_in_order (fst (on s eventName cb siteId))"
proof (cases "js_get (uniqueEvents s) eventName")
  case (Own d)
  with assms show ?thesis by (simp add: on_def)
next
  case Inherited
  with assms show ?thesis by (simp add: on_def)
next
  case Missing
  have old: "sorted_wrt (<) (map sub_id (subscribers s eventName))
      \<and> (\<forall>ob \<in> set (subscribers s eventName). sub_id ob < next_sub s)"
    using assms by (auto simp: ids_in_order_def subscribers_def split: option.splits)
  show ?thesis
    using assms old
    by (auto simp: on_result [OF Missing] ids_in_order_def sorted_wrt_append less_Suc_eq
        split: if_splits)
qed


lemma ids_in_order_on_each:
  "ids_in_order s \<Longrightarrow> ids_in_order (fst (on_each s names cb siteId))"
proof (induction names arbitrary: s)
  case Nil
  then show ?case by simp
next
  case (Cons name names)
  obtain s1 calls1 r1 where o: "on s name cb siteId = (s1, calls1, r1)"
    by (cases "on s name cb siteId") auto
  have w: "ids_in_order s1"
    using ids_in_order_on [OF Cons.prems, of name cb siteId] o by simp
  show ?case
  proof (cases r1)
    case (Inl e)
    with o w show ?thesis by simp
  next
    case (Inr h)
    with o Cons.IH [OF w] show ?thesis
      by (cases "on_each s1 names cb siteId") (auto split: sum.splits)
  qed
qed

lemma ids_in_order_onMultiple:
  "ids_in_order s \<Longrightarrow> ids_in_order (fst (onMultiple s names cb siteId))"
  using ids_in_order_on_each [of s names cb siteId]
  by (cases "on_each s names cb siteId") (auto simp: onMultiple_def split: sum.splits)

lemma next_sub_off: "next_sub (off s observer) = next_sub s"
proof (induction s observer rule: off.induct)
  case (1 s)
  show ?case by simp
next
  case (2 s eventName i)
  show ?case by (simp split: option.splits)
next
  case (3 s observers)
  then show ?case
    by (induction observers arbitrary: s) simp_all
qed

lemma ids_in_order_off: "ids_in_order s \<Longrightarrow> ids_in_order (off s observer)"
proof (induction s observer rule: off.induct)
  case (1 s)
  then show ?case by simp
next
  case (2 s eventName i)
  then show ?case
    by (auto simp: ids_in_order_def subject_unsubscribe_def sorted_wrt_filter
        sorted_wrt_map split: option.splits if_splits)
next
  case (3 s observers)
  then show ?case
    by (induction observers arbitrary: s) simp_all
qed

lemma observables_triggerUnique:
  "observables (fst (triggerUnique s eventName data siteId)) = observables s"
  by (simp add: triggerUnique_def Let_def split: property.splits prod.splits)

lemma next_sub_triggerUnique:
  "next_sub (fst (triggerUnique s eventName data siteId)) = next_sub s"
  by (simp add: triggerUnique_def Let_def split: property.splits prod.splits)

lemma ids_in_order_triggerUnique:
  "ids_in_order s \<Longrightarrow> ids_in_order (fst (triggerUnique s eventName data siteId))"
  by (simp add: ids_in_order_def observables_triggerUnique next_sub_triggerUnique)

lemma ids_in_order_step: "ids_in_order s \<Longrightarrow> ids_in_order (step s c)"
  by (cases c)
    (simp_all add: ids_in_order_on ids_in_order_onMultiple fst_trigger
      ids_in_order_triggerUnique ids_in_order_off)

lemma ids_in_order_run: "ids_in_order s \<Longrightarrow> ids_in_order (run s calls)"
  unfolding run_def
  by (induction calls arbitrary: s) (simp_all add: ids_in_order_step)

section \<open>Deliveries to one subscription; example states\<close>

lemma three_subscribers_state:
  "three_subscribers =
     \<lparr>observables = [''login'' \<mapsto>
        [\<lparr>sub_id = 0, callBack = 1, siteScope = None\<rparr>,
         \<lparr>sub_id = 1, callBack = 2, siteScope = Some ''site1''\<rparr>,
         \<lparr>sub_id = 2, callBack = 3, siteScope = Some ''site2''\<rparr>]],
      uniqueEvents = Map.empty, next_sub = 3\<rparr>"
  by (simp add: three_subscribers_def run_def on_def no_events_def js_get_def
      object_prototype_keys_def numeral_2_eq_2)

lemma ids_in_order_three_subscribers: "ids_in_order three_subscribers"
  unfolding three_subscribers_def
  by (rule ids_in_order_run [OF ids_in_order_no_events])




lemma sorted_ids_takeWhile:
  "sorted_wrt (<) (map sub_id obs) \<Longrightarrow> sorted_wrt (<) (map sub_id (takeWhile P obs))"
proof -
  assume a: "sorted_wrt (<) (map sub_id obs)"
  have "obs = takeWhile P obs @ dropWhile P obs"
    by simp
  then have "sorted_wrt (<) (map sub_id (takeWhile P obs @ dropWhile P obs))"
    using a by simp
  then show ?thesis
    unfolding map_append sorted_wrt_append by simp
qed

lemma subject_next_sorted:
  assumes "sorted_wrt (<) (map sub_id obs)"
  shows "sorted_wrt (<) (map fst (fst (subject_next obs v)))"
proof -
  have "sorted_wrt (<) (map sub_id (filter (\<lambda>ob. subscription_next ob v = Called)
      (takeWhile (\<lambda>ob. subscription_next ob v \<noteq> Raised TypeError) obs)))"
    using sorted_ids_takeWhile [OF assms] by (simp add: sorted_wrt_map sorted_wrt_filter)
  then show ?thesis
    by (simp add: subject_next_calls o_def)
qed



section \<open>Unique events\<close>








section \<open>Site scopes\<close>




section \<open>What \<open>trigger\<close> raises\<close>

text \<open>
  Claim C5 says that \<open>trigger\<close> on an event name without subscribers completes without
  an error.  For an event name that every object inherits from \<open>Object.prototype\<close>, such
  as \<open>constructor\<close>, the lookup \<open>this.observables[eventName]\<close> finds the inherited
  member, which is truthy and has no \<open>next\<close>: on the bus without any subscriber,
  \<open>trigger\<close> raises a \<open>TypeError\<close>, whatever the payload and the site.
\<close>

theorem trigger_inherited_name_raises:
  "subscribers (no_events :: ('cb, 'a) CoreEvents) ''constructor'' = []
   \<and> trigger (no_events :: ('cb, 'a) CoreEvents) ''constructor'' data siteId
       = (no_events, [], Inl TypeError)"
  by (simp add: trigger_def js_get_def no_events_def object_prototype_keys_def subscribers_def)

text \<open>
  For every other event name without a subject \<open>trigger\<close> does return and calls no one,
  and it never changes the unique-event records.
\<close>

lemma trigger_frame:
  "uniqueEvents (fst (trigger s eventName data siteId)) = uniqueEvents s
   \<and> (js_get (observables s) eventName = Missing \<longrightarrow>
        trigger s eventName data siteId = (s, [], Inr ()))"
  by (intro conjI impI) (simp add: fst_trigger, simp add: trigger_def)

text \<open>
  Claim C6 says that no operation raises, also for an absent payload and for every site
  scope.  After \<open>on('login', cb, 'site1')\<close> on the empty bus, \<open>trigger('login')\<close> delivers
  \<open>undefined\<close> to the subscribed function, which reads \<open>value.siteId\<close>: the function
  raises a \<open>TypeError\<close> and the callback is not called; with the subject as the spec
  describes it, the error is that of \<open>trigger\<close>.  Whatever the subject does with such an
  error, \<open>trigger('toString')\<close> raises in \<open>trigger\<close> itself, for every payload and site.
\<close>

theorem trigger_absent_payload_raises:
  "on (no_events :: ('cb, 'a) CoreEvents) ''login'' cb (Some ''site1'')
     = (\<lparr>observables = [''login'' \<mapsto> [\<lparr>sub_id = 0, callBack = cb, siteScope = Some ''site1''\<rparr>]],
         uniqueEvents = Map.empty, next_sub = 1\<rparr>,
        [], Inr (SubscriptionObserver ''login'' 0))
   \<and> subscription_next \<lparr>sub_id = 0, callBack = cb, siteScope = Some ''site1''\<rparr>
        (JSUndefined :: 'a payload) = Raised TypeError
   \<and> trigger \<lparr>observables = [''login'' \<mapsto> [\<lparr>sub_id = 0, callBack = cb, siteScope = Some ''site1''\<rparr>]],
         uniqueEvents = Map.empty :: string \<rightharpoonup> 'a payload, next_sub = 1\<rparr> ''login'' JSUndefined None
     = (\<lparr>observables = [''login'' \<mapsto> [\<lparr>sub_id = 0, callBack = cb, siteScope = Some ''site1''\<rparr>]],
         uniqueEvents = Map.empty, next_sub = 1\<rparr>,
        [], Inl TypeError)
   \<and> trigger \<lparr>observables = [''login'' \<mapsto> [\<lparr>sub_id = 0, callBack = cb, siteScope = Some ''site1''\<rparr>]],
         uniqueEvents = Map.empty :: string \<rightharpoonup> 'a payload, next_sub = 1\<rparr> ''toString'' data siteId
     = (\<lparr>observables = [''login'' \<mapsto> [\<lparr>sub_id = 0, callBack = cb, siteScope = Some ''site1''\<rparr>]],
         uniqueEvents = Map.empty, next_sub = 1\<rparr>,
        [], Inl TypeError)"
  by (simp add: on_def trigger_def js_get_def no_events_def object_prototype_keys_def
      tag_siteId_def subscription_next_def)

section \<open>Order of delivery\<close>

text \<open>
  Claim C7.  \<open>on\<close> never raises, for any event name.  When it registers (the name has no
  unique-event record), the new subscriber goes to the end of the subscribers of the
  name and takes the value of the subscription counter as its identity, and the counter
  goes up.  In a state where these identities are in order (every state reached from the
  empty bus is one, see \<open>ids_in_order_run\<close>), one call of \<open>trigger\<close> calls subscribers by
  increasing identity: in the order of their registration.
\<close>

theorem deliveries_in_registration_order:
  "(\<exists>s' calls observer. on s eventName cb scope = (s', calls, Inr observer))
   \<and> (js_get (uniqueEvents s) eventName = Missing \<longrightarrow>
        subscribers (fst (on s eventName cb scope)) eventName
          = subscribers s eventName @ [\<lparr>sub_id = next_sub s, callBack = cb, siteScope = scope\<rparr>]
        \<and> next_sub (fst (on s eventName cb scope)) = Suc (next_sub s))
   \<and> (ids_in_order s \<longrightarrow>
        sorted_wrt (<) (map fst (fst (snd (trigger s name data siteId)))))"
proof (intro conjI impI)
  show "\<exists>s' calls observer. on s eventName cb scope = (s', calls, Inr observer)"
    using on_never_raises [of s eventName cb scope]
    by (cases "on s eventName cb scope"; cases "snd (snd (on s eventName cb scope))") auto
next
  assume "js_get (uniqueEvents s) eventName = Missing"
  then show "subscribers (fst (on s eventName cb scope)) eventName
          = subscribers s eventName @ [\<lparr>sub_id = next_sub s, callBack = cb, siteScope = scope\<rparr>]"
    and "next_sub (fst (on s eventName cb scope)) = Suc (next_sub s)"
    by (simp_all add: on_result subscribers_def)
next
  assume w: "ids_in_order s"
  show "sorted_wrt (<) (map fst (fst (snd (trigger s name data siteId))))"
  proof (cases "observables s name")
    case None
    then show ?thesis
      by (simp add: trigger_def js_get_def)
  next
    case (Some obs)
    then have "sorted_wrt (<) (map sub_id obs)"
      using w by (simp add: ids_in_order_def)
    then show ?thesis
      using Some subject_next_sorted [of obs "tag_siteId data siteId"]
      by (simp add: trigger_def js_get_def split: prod.splits)
  qed
qed

theorem deliveries_in_registration_order_witness:
  "js_get (uniqueEvents three_subscribers) ''login'' = Missing
   \<and> subscribers (fst (on three_subscribers ''login'' 4 (Some ''site2''))) ''login''
       = subscribers three_subscribers ''login''
           @ [\<lparr>sub_id = next_sub three_subscribers, callBack = 4, siteScope = Some ''site2''\<rparr>]
   \<and> next_sub three_subscribers = 3
   \<and> ids_in_order three_subscribers
   \<and> map fst (fst (snd (trigger three_subscribers ''login'' (JSObj None ()) (Some ''site2''))))
       = [0, 2]
   \<and> sorted_wrt (<)
        (map fst (fst (snd (trigger three_subscribers ''login'' (JSObj None ()) (Some ''site2'')))))"
proof -
  have h1: "js_get (uniqueEvents three_subscribers) ''login'' = Missing"
    by (simp add: three_subscribers_state js_get_def object_prototype_keys_def)
  note t = deliveries_in_registration_order [of three_subscribers "''login''" 4 "Some ''site2''"
      "''login''" "JSObj None ()" "Some ''site2''"]
  note reg = t [THEN conjunct2, THEN conjunct1, THEN mp, OF h1, THEN conjunct1]
  note ord = t [THEN conjunct2, THEN conjunct2, THEN mp, OF ids_in_order_three_subscribers]
  have n: "next_sub three_subscribers = 3"
    by (simp add: three_subscribers_state)
  have ids: "map fst (fst (snd (trigger three_subscribers ''login'' (JSObj None ()) (Some ''site2''))))
       = [0, 2]"
    by (simp add: three_subscribers_state trigger_def js_get_def tag_siteId_def assign_siteId_def
        subscription_next_def)
  show ?thesis
    by (intro conjI h1 reg n ids_in_order_three_subscribers ids ord)
qed

section \<open>\<open>onMultiple\<close> and the release of its subscriptions\<close>

















section \<open>A \<open>siteId\<close> that is lost\<close>



section \<open>Guarding the routes\<close>

lemmas steps = guard_route_def default_canLoad_def default_canActivate_def push_canLoad_def
  push_canActivate_def push_def new_array_def

lemma wf_ref:
  "well_formed h \<Longrightarrow> route_at h a = Some r \<Longrightarrow> canLoad r = Some l \<Longrightarrow> \<exists>gs. array_at h l = Some gs"
  "well_formed h \<Longrightarrow> route_at h a = Some r \<Longrightarrow> canActivate r = Some l \<Longrightarrow> \<exists>gs. array_at h l = Some gs"
  "well_formed h \<Longrightarrow> array_at h (next_array h) = None"
  "well_formed h \<Longrightarrow> array_at h (Suc (next_array h)) = None"
  by (fastforce simp: well_formed_def uses_def)+

lemma guard_route_closed:
  assumes wf: "well_formed h" and un: "unshared h" and r: "route_at h a = Some r"
  shows "guard_route h a =
     h\<lparr>route_at := (route_at h)(a \<mapsto>
          r\<lparr>canLoad := Some (load_ref h r), canActivate := Some (activate_ref h r)\<rparr>),
       array_at := (array_at h)
         (load_ref h r \<mapsto> guards_or_empty (deref h (canLoad r)) @ [CoreRedirectGuard],
          activate_ref h r \<mapsto> guards_or_empty (deref h (canActivate r)) @ [CoreRedirectGuard]),
       next_array := next_array h + fresh_count r\<rparr>"
    and "load_ref h r \<noteq> activate_ref h r"
proof -
  show "load_ref h r \<noteq> activate_ref h r"
  proof (cases "canLoad r"; cases "canActivate r")
    fix l1 l2
    assume c: "canLoad r = Some l1" "canActivate r = Some l2"
    then show ?thesis
      using un r by (fastforce simp: unshared_def load_ref_def activate_ref_def)
  next
    fix l2
    assume c: "canLoad r = None" "canActivate r = Some l2"
    then show ?thesis
      using wf_ref(2) [OF wf r, of l2] wf_ref(3) [OF wf]
      by (auto simp: load_ref_def activate_ref_def)
  next
    fix l1
    assume c: "canLoad r = Some l1" "canActivate r = None"
    then show ?thesis
      using wf_ref(1) [OF wf r, of l1] wf_ref(3) [OF wf]
      by (auto simp: load_ref_def activate_ref_def)
  next
    assume c: "canLoad r = None" "canActivate r = None"
    then show ?thesis
      by (simp add: load_ref_def activate_ref_def)
  qed
  then have ne: "load_ref h r \<noteq> activate_ref h r" .
  show "guard_route h a =
     h\<lparr>route_at := (route_at h)(a \<mapsto>
          r\<lparr>canLoad := Some (load_ref h r), canActivate := Some (activate_ref h r)\<rparr>),
       array_at := (array_at h)
         (load_ref h r \<mapsto> guards_or_empty (deref h (canLoad r)) @ [CoreRedirectGuard],
          activate_ref h r \<mapsto> guards_or_empty (deref h (canActivate r)) @ [CoreRedirectGuard]),
       next_array := next_array h + fresh_count r\<rparr>"
  proof (cases "canLoad r"; cases "canActivate r")
    fix l1 l2
    assume c: "canLoad r = Some l1" "canActivate r = Some l2"
    obtain g1 g2 where g: "array_at h l1 = Some g1" "array_at h l2 = Some g2"
      using wf_ref(1,2) [OF wf r] c by blast
    have "r\<lparr>canLoad := Some l1, canActivate := Some l2\<rparr> = r"
      using c by simp
    then have same: "(route_at h)(a \<mapsto> r\<lparr>canLoad := Some l1, canActivate := Some l2\<rparr>)
        = route_at h"
      using r by (simp add: map_upd_triv)
    show ?thesis
      using r c g ne
      by (simp add: steps load_ref_def activate_ref_def fresh_count_def guards_or_empty_def
          deref_def same)
  next
    fix l2
    assume c: "canLoad r = None" "canActivate r = Some l2"
    obtain g2 where g: "array_at h l2 = Some g2"
      using wf_ref(2) [OF wf r] c by blast
    show ?thesis
      using r c g ne
      by (cases r)
        (simp add: steps load_ref_def activate_ref_def fresh_count_def guards_or_empty_def
          deref_def)
  next
    fix l1
    assume c: "canLoad r = Some l1" "canActivate r = None"
    obtain g1 where g: "array_at h l1 = Some g1"
      using wf_ref(1) [OF wf r] c by blast
    show ?thesis
      using r c g ne wf_ref(3) [OF wf]
      by (cases r)
        (auto simp: steps load_ref_def activate_ref_def fresh_count_def guards_or_empty_def
          deref_def fun_upd_twist)
  next
    assume c: "canLoad r = None" "canActivate r = None"
    then show ?thesis
      using r
      by (cases r)
        (simp add: steps load_ref_def activate_ref_def fresh_count_def guards_or_empty_def
          deref_def)
  qed
qed

lemma load_ref_cases:
  "(canLoad r = Some (load_ref h r)) \<or> (canLoad r = None \<and> load_ref h r = next_array h)"
  by (cases "canLoad r") (simp_all add: load_ref_def)

lemma activate_ref_cases:
  "(canActivate r = Some (activate_ref h r))
   \<or> (canActivate r = None \<and> next_array h \<le> activate_ref h r
       \<and> activate_ref h r < next_array h + fresh_count r)"
  by (cases "canActivate r") (simp_all add: activate_ref_def fresh_count_def)

lemma load_ref_bound:
  assumes "well_formed h" and "route_at h a = Some r"
  shows "load_ref h r < next_array h + fresh_count r"
    and "activate_ref h r < next_array h + fresh_count r"
proof -
  show "load_ref h r < next_array h + fresh_count r"
  proof (cases "canLoad r")
    case None
    then show ?thesis by (simp add: load_ref_def fresh_count_def)
  next
    case (Some l)
    then have "l < next_array h"
      using assms by (fastforce simp: well_formed_def uses_def)
    then show ?thesis using Some by (simp add: load_ref_def)
  qed
  show "activate_ref h r < next_array h + fresh_count r"
  proof (cases "canActivate r")
    case None
    then show ?thesis by (simp add: activate_ref_def fresh_count_def)
  next
    case (Some l)
    then have "l < next_array h"
      using assms by (fastforce simp: well_formed_def uses_def)
    then show ?thesis using Some by (simp add: activate_ref_def)
  qed
qed

lemma other_route_refs:
  assumes "well_formed h" and "unshared h" and "route_at h a = Some r"
      and "route_at h b = Some rb" and "b \<noteq> a" and "uses rb l"
  shows "l \<noteq> load_ref h r" and "l \<noteq> activate_ref h r" and "l < next_array h"
proof -
  show old: "l < next_array h"
    using assms(1,4,6) by (fastforce simp: well_formed_def)
  show "l \<noteq> load_ref h r"
  proof (cases "canLoad r")
    case None
    then show ?thesis using old by (simp add: load_ref_def)
  next
    case (Some l1)
    then have "uses r l1" by (simp add: uses_def)
    then have "\<not> uses rb l1"
      using assms(2,3,4,5) unfolding unshared_def by blast
    then show ?thesis using Some assms(6) by (auto simp: load_ref_def)
  qed
  show "l \<noteq> activate_ref h r"
  proof (cases "canActivate r")
    case None
    then show ?thesis using old by (auto simp: activate_ref_def)
  next
    case (Some l2)
    then have "uses r l2" by (simp add: uses_def)
    then have "\<not> uses rb l2"
      using assms(2,3,4,5) unfolding unshared_def by blast
    then show ?thesis using Some assms(6) by (auto simp: activate_ref_def)
  qed
qed

lemma guard_route_view:
  assumes wf: "well_formed h" and un: "unshared h" and r: "route_at h a = Some r"
  shows "view (guard_route h a) a =
           Some (with_guard (deref h (canLoad r)), with_guard (deref h (canActivate r)), other r)"
proof (cases "canLoad r"; cases "canActivate r")
  fix l1 l2
  assume c: "canLoad r = Some l1" "canActivate r = Some l2"
  obtain g1 g2 where g: "array_at h l1 = Some g1" "array_at h l2 = Some g2"
    using wf_ref(1,2) [OF wf r] c by blast
  have "l1 \<noteq> l2"
    using un r c by (fastforce simp: unshared_def)
  then show ?thesis
    using r c g by (simp add: steps view_def deref_def with_guard_def)
next
  fix l2
  assume c: "canLoad r = None" "canActivate r = Some l2"
  obtain g2 where g: "array_at h l2 = Some g2"
    using wf_ref(2) [OF wf r] c by blast
  have "l2 \<noteq> next_array h"
    using wf_ref(3) [OF wf] g by auto
  then show ?thesis
    using r c g by (simp add: steps view_def deref_def with_guard_def)
next
  fix l1
  assume c: "canLoad r = Some l1" "canActivate r = None"
  obtain g1 where g: "array_at h l1 = Some g1"
    using wf_ref(1) [OF wf r] c by blast
  have "l1 \<noteq> next_array h"
    using wf_ref(3) [OF wf] g by auto
  then show ?thesis
    using r c g by (simp add: steps view_def deref_def with_guard_def)
next
  assume c: "canLoad r = None" "canActivate r = None"
  then show ?thesis
    using r by (simp add: steps view_def deref_def with_guard_def)
qed

lemma guard_route_frame:
  assumes wf: "well_formed h" and un: "unshared h" and r: "route_at h a = Some r" and ne: "b \<noteq> a"
  shows "view (guard_route h a) b = view h b"
proof (cases "route_at h b")
  case None
  then show ?thesis
    using ne by (simp add: guard_route_closed(1) [OF wf un r] view_def)
next
  case (Some rb)
  have "deref (guard_route h a) (canLoad rb) = deref h (canLoad rb)"
  proof (cases "canLoad rb")
    case None
    then show ?thesis by (simp add: deref_def)
  next
    case (Some l)
    then have "uses rb l" by (simp add: uses_def)
    from other_route_refs(1,2) [OF wf un r \<open>route_at h b = Some rb\<close> ne this]
    show ?thesis
      using Some by (simp add: guard_route_closed(1) [OF wf un r] deref_def)
  qed
  moreover have "deref (guard_route h a) (canActivate rb) = deref h (canActivate rb)"
  proof (cases "canActivate rb")
    case None
    then show ?thesis by (simp add: deref_def)
  next
    case (Some l)
    then have "uses rb l" by (simp add: uses_def)
    from other_route_refs(1,2) [OF wf un r \<open>route_at h b = Some rb\<close> ne this]
    show ?thesis
      using Some by (simp add: guard_route_closed(1) [OF wf un r] deref_def)
  qed
  moreover have "route_at (guard_route h a) b = Some rb"
    using ne Some by (simp add: guard_route_closed(1) [OF wf un r])
  ultimately show ?thesis
    using Some by (simp add: view_def)
qed

lemma guard_route_dom:
  assumes "well_formed h" and "unshared h" and "route_at h a = Some r"
  shows "dom (route_at (guard_route h a)) = dom (route_at h)"
  using assms(3) by (auto simp: guard_route_closed(1) [OF assms])

lemma guard_route_well_formed:
  assumes wf: "well_formed h" and un: "unshared h" and r: "route_at h a = Some r"
  shows "well_formed (guard_route h a)"
  unfolding well_formed_def
proof (intro conjI allI impI)
  fix b rb l
  assume b: "route_at (guard_route h a) b = Some rb" and u: "uses rb l"
  show "array_at (guard_route h a) l \<noteq> None"
  proof (cases "b = a")
    case True
    then have "l = load_ref h r \<or> l = activate_ref h r"
      using b u by (auto simp: guard_route_closed(1) [OF wf un r] uses_def)
    then show ?thesis
      by (auto simp: guard_route_closed(1) [OF wf un r])
  next
    case False
    then have "route_at h b = Some rb"
      using b by (simp add: guard_route_closed(1) [OF wf un r])
    then have "array_at h l \<noteq> None"
      using wf u by (fastforce simp: well_formed_def)
    then show ?thesis
      by (simp add: guard_route_closed(1) [OF wf un r])
  qed
next
  fix l
  assume "array_at (guard_route h a) l \<noteq> None"
  then have "l = load_ref h r \<or> l = activate_ref h r \<or> array_at h l \<noteq> None"
    by (auto simp: guard_route_closed(1) [OF wf un r] split: if_splits)
  moreover have "array_at h l \<noteq> None \<Longrightarrow> l < next_array h"
    using wf by (simp add: well_formed_def)
  ultimately show "l < next_array (guard_route h a)"
    using load_ref_bound [OF wf r]
    by (auto simp: guard_route_closed(1) [OF wf un r])
qed

lemma guard_route_unshared:
  assumes wf: "well_formed h" and un: "unshared h" and r: "route_at h a = Some r"
  shows "unshared (guard_route h a)"
  unfolding unshared_def
proof (intro conjI allI impI)
  fix b rb
  assume b: "route_at (guard_route h a) b = Some rb"
  show "canLoad rb = None \<or> canLoad rb \<noteq> canActivate rb"
  proof (cases "b = a")
    case True
    then show ?thesis
      using b guard_route_closed(2) [OF wf un r]
      by (auto simp: guard_route_closed(1) [OF wf un r])
  next
    case False
    then have "route_at h b = Some rb"
      using b by (simp add: guard_route_closed(1) [OF wf un r])
    then show ?thesis
      using un by (simp add: unshared_def)
  qed
next
  fix b c rb rc l
  assume b: "route_at (guard_route h a) b = Some rb"
    and c: "route_at (guard_route h a) c = Some rc"
    and ne: "b \<noteq> c" and u: "uses rb l"
  have new: "uses rb l \<Longrightarrow> l = load_ref h r \<or> l = activate_ref h r"
    if "route_at (guard_route h a) a = Some rb" for rb l
    using that by (auto simp: guard_route_closed(1) [OF wf un r] uses_def)
  have old: "route_at h x = Some rx" if "route_at (guard_route h a) x = Some rx" "x \<noteq> a" for x rx
    using that by (simp add: guard_route_closed(1) [OF wf un r])
  show "\<not> uses rc l"
  proof (cases "b = a")
    case True
    then have l: "l = load_ref h r \<or> l = activate_ref h r"
      using new b u by blast
    have "c \<noteq> a" using True ne by simp
    then have "route_at h c = Some rc"
      using old c by blast
    then show ?thesis
      using other_route_refs(1,2) [OF wf un r _ \<open>c \<noteq> a\<close>, of rc l] l by blast
  next
    case False
    then have hb: "route_at h b = Some rb"
      using old b by blast
    show ?thesis
    proof (cases "c = a")
      case True
      then have "uses rc l \<Longrightarrow> l = load_ref h r \<or> l = activate_ref h r"
        using new c by blast
      then show ?thesis
        using other_route_refs(1,2) [OF wf un r hb False u] by blast
    next
      case False
      then have "route_at h c = Some rc"
        using old c by blast
      then show ?thesis
        using un hb ne u unfolding unshared_def by blast
    qed
  qed
qed

lemma guard_route_guarded:
  assumes "well_formed h" and "unshared h" and "route_at h a = Some r"
  shows "view (guard_route h a) a = map_option guarded (view h a)"
  using guard_route_view [OF assms] assms(3) by (simp add: view_def guarded_def)

lemma fold_guard_route:
  assumes "well_formed h" and "unshared h" and "distinct as" and "set as \<subseteq> dom (route_at h)"
  shows "well_formed (fold (\<lambda>a h'. guard_route h' a) as h)
       \<and> unshared (fold (\<lambda>a h'. guard_route h' a) as h)
       \<and> dom (route_at (fold (\<lambda>a h'. guard_route h' a) as h)) = dom (route_at h)
       \<and> (\<forall>a \<in> set as. view (fold (\<lambda>a h'. guard_route h' a) as h) a = map_option guarded (view h a))
       \<and> (\<forall>a. a \<notin> set as \<longrightarrow> view (fold (\<lambda>a h'. guard_route h' a) as h) a = view h a)"
  using assms
proof (induction as arbitrary: h)
  case Nil
  then show ?case by simp
next
  case (Cons a as)
  obtain r where r: "route_at h a = Some r"
    using Cons.prems(4) by auto
  let ?h1 = "guard_route h a"
  have wf1: "well_formed ?h1" and un1: "unshared ?h1"
    and dom1: "dom (route_at ?h1) = dom (route_at h)"
    using guard_route_well_formed guard_route_unshared guard_route_dom Cons.prems(1,2) r
    by blast+
  have d: "distinct as" and s: "set as \<subseteq> dom (route_at ?h1)" and na: "a \<notin> set as"
    using Cons.prems(3,4) dom1 by auto
  note ih = Cons.IH [OF wf1 un1 d s]
  have va: "view (fold (\<lambda>a h'. guard_route h' a) as ?h1) a = map_option guarded (view h a)"
    using ih na guard_route_guarded [OF Cons.prems(1,2) r] by simp
  have vb: "view (fold (\<lambda>a h'. guard_route h' a) as ?h1) b = map_option guarded (view h b)"
    if "b \<in> set as" for b
  proof -
    have "b \<noteq> a" using that na by auto
    then show ?thesis
      using ih that guard_route_frame [OF Cons.prems(1,2) r] by simp
  qed
  have vc: "view (fold (\<lambda>a h'. guard_route h' a) as ?h1) b = view h b"
    if "b \<notin> set (a # as)" for b
  proof -
    have "b \<noteq> a" "b \<notin> set as" using that by auto
    then show ?thesis
      using ih guard_route_frame [OF Cons.prems(1,2) r] by simp
  qed
  show ?case
    using ih dom1 va vb vc by auto
qed

lemma guard_route_general:
  assumes wf: "well_formed h" and r: "route_at h a = Some r"
  shows "route_at (guard_route h a) =
           (route_at h)(a \<mapsto> r\<lparr>canLoad := Some (load_ref h r), canActivate := Some (activate_ref h r)\<rparr>)"
    and "array_at (guard_route h a) l =
           (if l = load_ref h r \<or> l = activate_ref h r
            then Some (guards_or_empty (array_at h l) @ replicate (pushes h r l) CoreRedirectGuard)
            else array_at h l)"
    and "next_array (guard_route h a) = next_array h + fresh_count r"
proof -
  have all: "route_at (guard_route h a) =
           (route_at h)(a \<mapsto> r\<lparr>canLoad := Some (load_ref h r), canActivate := Some (activate_ref h r)\<rparr>)
      \<and> array_at (guard_route h a) l =
           (if l = load_ref h r \<or> l = activate_ref h r
            then Some (guards_or_empty (array_at h l) @ replicate (pushes h r l) CoreRedirectGuard)
            else array_at h l)
      \<and> next_array (guard_route h a) = next_array h + fresh_count r"
  proof (cases "canLoad r"; cases "canActivate r")
    fix l1 l2
    assume c: "canLoad r = Some l1" "canActivate r = Some l2"
    obtain g1 g2 where g: "array_at h l1 = Some g1" "array_at h l2 = Some g2"
      using wf_ref(1,2) [OF wf r] c by blast
    have "r\<lparr>canLoad := Some l1, canActivate := Some l2\<rparr> = r"
      using c by simp
    then have same: "(route_at h)(a \<mapsto> r\<lparr>canLoad := Some l1, canActivate := Some l2\<rparr>)
        = route_at h"
      using r by (simp add: map_upd_triv)
    show ?thesis
      using r c g
      by (cases "l1 = l2")
        (auto simp: steps load_ref_def activate_ref_def fresh_count_def guards_or_empty_def
          pushes_def same)
  next
    fix l2
    assume c: "canLoad r = None" "canActivate r = Some l2"
    obtain g2 where g: "array_at h l2 = Some g2"
      using wf_ref(2) [OF wf r] c by blast
    have "l2 \<noteq> next_array h"
      using wf_ref(3) [OF wf] g by auto
    then show ?thesis
      using r c g wf_ref(3) [OF wf]
      by (cases r)
        (auto simp: steps load_ref_def activate_ref_def fresh_count_def guards_or_empty_def
          pushes_def)
  next
    fix l1
    assume c: "canLoad r = Some l1" "canActivate r = None"
    obtain g1 where g: "array_at h l1 = Some g1"
      using wf_ref(1) [OF wf r] c by blast
    have "l1 \<noteq> next_array h"
      using wf_ref(3) [OF wf] g by auto
    then show ?thesis
      using r c g wf_ref(3) [OF wf]
      by (cases r)
        (auto simp: steps load_ref_def activate_ref_def fresh_count_def guards_or_empty_def
          pushes_def)
  next
    assume c: "canLoad r = None" "canActivate r = None"
    then show ?thesis
      using r wf_ref(3,4) [OF wf]
      by (cases r)
        (auto simp: steps load_ref_def activate_ref_def fresh_count_def guards_or_empty_def
          pushes_def)
  qed
  from all show "route_at (guard_route h a) =
           (route_at h)(a \<mapsto> r\<lparr>canLoad := Some (load_ref h r), canActivate := Some (activate_ref h r)\<rparr>)"
    by blast
  from all show "array_at (guard_route h a) l =
           (if l = load_ref h r \<or> l = activate_ref h r
            then Some (guards_or_empty (array_at h l) @ replicate (pushes h r l) CoreRedirectGuard)
            else array_at h l)"
    by blast
  from all show "next_array (guard_route h a) = next_array h + fresh_count r"
    by blast
qed

lemma grows_route_None: "grows h h' \<Longrightarrow> route_at h a = None \<Longrightarrow> route_at h' a = None"
  unfolding grows_def by blast

lemma grows_route:
  "grows h h' \<Longrightarrow> route_at h a = Some r \<Longrightarrow>
     \<exists>r'. route_at h' a = Some r' \<and> other r' = other r
        \<and> kept h (canLoad r) (canLoad r') \<and> kept h (canActivate r) (canActivate r')"
  unfolding grows_def by blast

lemma grows_array_None:
  "grows h h' \<Longrightarrow> array_at h l = None \<Longrightarrow>
     array_at h' l = None \<or> (\<exists>k. array_at h' l = Some (replicate k CoreRedirectGuard))"
  unfolding grows_def by blast

lemma grows_array_Some:
  "grows h h' \<Longrightarrow> array_at h l = Some gs \<Longrightarrow>
     \<exists>k. array_at h' l = Some (gs @ replicate k CoreRedirectGuard)"
  unfolding grows_def by blast

lemma grows_array:
  assumes "grows h h'"
  shows "\<exists>k. guards_or_empty (array_at h' l)
            = guards_or_empty (array_at h l) @ replicate k CoreRedirectGuard"
proof (cases "array_at h l")
  case None
  from grows_array_None [OF assms None] show ?thesis
  proof
    assume "array_at h' l = None"
    then have "guards_or_empty (array_at h' l)
        = guards_or_empty (array_at h l) @ replicate 0 CoreRedirectGuard"
      using None by (simp add: guards_or_empty_def)
    then show ?thesis by blast
  next
    assume "\<exists>k. array_at h' l = Some (replicate k CoreRedirectGuard)"
    then show ?thesis
      using None by (auto simp: guards_or_empty_def)
  qed
next
  case (Some gs)
  from grows_array_Some [OF assms Some] show ?thesis
    using Some by (auto simp: guards_or_empty_def)
qed

lemma grows_still_None: "grows h h' \<Longrightarrow> array_at h' l = None \<Longrightarrow> array_at h l = None"
  using grows_array_Some [of h h' l] by (cases "array_at h l") auto

lemma grows_refl: "grows h h"
proof -
  have "\<exists>k. array_at h l = Some (gs @ replicate k CoreRedirectGuard)" if "array_at h l = Some gs" for l gs
    using that by (intro exI [of _ 0]) simp
  then show ?thesis
    unfolding grows_def kept_def by auto
qed

lemma kept_trans:
  assumes "grows h h1" and "kept h ref ref1" and "kept h1 ref1 ref2"
  shows "kept h ref ref2"
proof (cases ref)
  case (Some l)
  then show ?thesis
    using assms(2,3) by (simp add: kept_def)
next
  case None
  show ?thesis
  proof (cases ref1)
    case (Some l1)
    then have "array_at h l1 = None" "ref2 = Some l1"
      using None assms(2,3) by (simp_all add: kept_def)
    then show ?thesis
      using None by (simp add: kept_def)
  next
    case ref1: None
    then have "\<forall>l. ref2 = Some l \<longrightarrow> array_at h1 l = None"
      using assms(3) by (simp add: kept_def)
    then have "\<forall>l. ref2 = Some l \<longrightarrow> array_at h l = None"
      using grows_still_None [OF assms(1)] by blast
    then show ?thesis
      using None by (simp add: kept_def)
  qed
qed

lemma grows_trans:
  assumes a: "grows h h1" and b: "grows h1 h2"
  shows "grows h h2"
  unfolding grows_def
proof (intro conjI allI impI)
  fix x
  assume "route_at h x = None"
  then show "route_at h2 x = None"
    using grows_route_None [OF a] grows_route_None [OF b] by blast
next
  fix x r
  assume r: "route_at h x = Some r"
  obtain r1 where r1: "route_at h1 x = Some r1" "other r1 = other r"
      "kept h (canLoad r) (canLoad r1)" "kept h (canActivate r) (canActivate r1)"
    using grows_route [OF a r] by blast
  obtain r2 where r2: "route_at h2 x = Some r2" "other r2 = other r1"
      "kept h1 (canLoad r1) (canLoad r2)" "kept h1 (canActivate r1) (canActivate r2)"
    using grows_route [OF b r1(1)] by blast
  show "\<exists>r'. route_at h2 x = Some r' \<and> other r' = other r
      \<and> kept h (canLoad r) (canLoad r') \<and> kept h (canActivate r) (canActivate r')"
    using r1 r2 kept_trans [OF a] by (intro exI [of _ r2]) auto
next
  fix l
  assume n: "array_at h l = None"
  from grows_array_None [OF a n]
  show "array_at h2 l = None \<or> (\<exists>k. array_at h2 l = Some (replicate k CoreRedirectGuard))"
  proof
    assume "array_at h1 l = None"
    then show ?thesis
      using grows_array_None [OF b] by blast
  next
    assume "\<exists>k. array_at h1 l = Some (replicate k CoreRedirectGuard)"
    then obtain k where "array_at h1 l = Some (replicate k CoreRedirectGuard)"
      by blast
    from grows_array_Some [OF b this] obtain k'
      where "array_at h2 l = Some (replicate k CoreRedirectGuard @ replicate k' CoreRedirectGuard)"
      by blast
    then have "array_at h2 l = Some (replicate (k + k') CoreRedirectGuard)"
      by (simp add: replicate_add)
    then show ?thesis by blast
  qed
next
  fix l gs
  assume s: "array_at h l = Some gs"
  from grows_array_Some [OF a s] obtain k
    where k: "array_at h1 l = Some (gs @ replicate k CoreRedirectGuard)"
    by blast
  from grows_array_Some [OF b k] obtain k'
    where "array_at h2 l = Some ((gs @ replicate k CoreRedirectGuard) @ replicate k' CoreRedirectGuard)"
    by blast
  then have "array_at h2 l = Some (gs @ replicate (k + k') CoreRedirectGuard)"
    by (simp add: replicate_add)
  then show "\<exists>k. array_at h2 l = Some (gs @ replicate k CoreRedirectGuard)"
    by blast
qed

lemma appended_then_grows:
  assumes a: "appended h h1 x" and b: "grows h1 h2"
  shows "appended h h2 x"
proof -
  from a obtain r1 l1 l2 k1 k2 where r1: "route_at h1 x = Some r1"
      "canLoad r1 = Some l1" "canActivate r1 = Some l2"
    and a1: "array_at h1 l1
        = Some (guards_or_empty (array_at h l1) @ replicate (Suc k1) CoreRedirectGuard)"
    and a2: "array_at h1 l2
        = Some (guards_or_empty (array_at h l2) @ replicate (Suc k2) CoreRedirectGuard)"
    unfolding appended_def by blast
  obtain r2 where r2: "route_at h2 x = Some r2" "kept h1 (canLoad r1) (canLoad r2)"
      "kept h1 (canActivate r1) (canActivate r2)"
    using grows_route [OF b r1(1)] by blast
  have c: "canLoad r2 = Some l1" "canActivate r2 = Some l2"
    using r1 r2 by (simp_all add: kept_def)
  from grows_array_Some [OF b a1] obtain j1 where "array_at h2 l1
      = Some ((guards_or_empty (array_at h l1) @ replicate (Suc k1) CoreRedirectGuard)
              @ replicate j1 CoreRedirectGuard)"
    by blast
  then have b1: "array_at h2 l1
      = Some (guards_or_empty (array_at h l1) @ replicate (Suc (k1 + j1)) CoreRedirectGuard)"
    by (simp add: replicate_add)
  from grows_array_Some [OF b a2] obtain j2 where "array_at h2 l2
      = Some ((guards_or_empty (array_at h l2) @ replicate (Suc k2) CoreRedirectGuard)
              @ replicate j2 CoreRedirectGuard)"
    by blast
  then have b2: "array_at h2 l2
      = Some (guards_or_empty (array_at h l2) @ replicate (Suc (k2 + j2)) CoreRedirectGuard)"
    by (simp add: replicate_add)
  show ?thesis
    unfolding appended_def using r2(1) c b1 b2 by blast
qed

lemma grows_then_appended:
  assumes a: "grows h h1" and b: "appended h1 h2 x"
  shows "appended h h2 x"
proof -
  from b obtain r2 l1 l2 k1 k2 where r2: "route_at h2 x = Some r2"
      "canLoad r2 = Some l1" "canActivate r2 = Some l2"
    and a1: "array_at h2 l1
        = Some (guards_or_empty (array_at h1 l1) @ replicate (Suc k1) CoreRedirectGuard)"
    and a2: "array_at h2 l2
        = Some (guards_or_empty (array_at h1 l2) @ replicate (Suc k2) CoreRedirectGuard)"
    unfolding appended_def by blast
  obtain j1 where j1: "guards_or_empty (array_at h1 l1)
      = guards_or_empty (array_at h l1) @ replicate j1 CoreRedirectGuard"
    using grows_array [OF a] by blast
  obtain j2 where j2: "guards_or_empty (array_at h1 l2)
      = guards_or_empty (array_at h l2) @ replicate j2 CoreRedirectGuard"
    using grows_array [OF a] by blast
  have b1: "array_at h2 l1
      = Some (guards_or_empty (array_at h l1) @ replicate (Suc (j1 + k1)) CoreRedirectGuard)"
    unfolding a1 j1 by (simp add: replicate_add replicate_append_same)
  have b2: "array_at h2 l2
      = Some (guards_or_empty (array_at h l2) @ replicate (Suc (j2 + k2)) CoreRedirectGuard)"
    unfolding a2 j2 by (simp add: replicate_add replicate_append_same)
  show ?thesis
    unfolding appended_def using r2 b1 b2 by blast
qed

lemma kept_refl: "kept h ref ref"
  by (simp add: kept_def)

lemma kept_load_ref:
  assumes "well_formed h"
  shows "kept h (canLoad r) (Some (load_ref h r))"
    and "kept h (canActivate r) (Some (activate_ref h r))"
  using wf_ref(3,4) [OF assms]
  by (auto simp: kept_def load_ref_def activate_ref_def)

lemma guard_route_step:
  assumes wf: "well_formed h" and r: "route_at h a = Some r"
  shows "well_formed (guard_route h a)"
    and "grows h (guard_route h a)"
    and "appended h (guard_route h a) a"
proof -
  note g = guard_route_general [OF wf r]
  show "well_formed (guard_route h a)"
    unfolding well_formed_def
  proof (intro conjI allI impI)
    fix b rb l
    assume b: "route_at (guard_route h a) b = Some rb" and u: "uses rb l"
    show "array_at (guard_route h a) l \<noteq> None"
    proof (cases "b = a")
      case True
      then have "l = load_ref h r \<or> l = activate_ref h r"
        using b u by (auto simp: g(1) uses_def)
      then show ?thesis
        by (auto simp: g(2))
    next
      case False
      then have "route_at h b = Some rb"
        using b by (simp add: g(1))
      then have "array_at h l \<noteq> None"
        using wf u by (fastforce simp: well_formed_def)
      then show ?thesis
        by (simp add: g(2))
    qed
  next
    fix l
    assume "array_at (guard_route h a) l \<noteq> None"
    then have "l = load_ref h r \<or> l = activate_ref h r \<or> array_at h l \<noteq> None"
      by (auto simp: g(2) split: if_splits)
    moreover have "array_at h l \<noteq> None \<Longrightarrow> l < next_array h"
      using wf by (simp add: well_formed_def)
    ultimately show "l < next_array (guard_route h a)"
      using load_ref_bound [OF wf r] by (auto simp: g(3))
  qed
  show "grows h (guard_route h a)"
    unfolding grows_def
  proof (intro conjI allI impI)
    fix x
    assume "route_at h x = None"
    then show "route_at (guard_route h a) x = None"
      using r by (auto simp: g(1))
  next
    fix x rx
    assume x: "route_at h x = Some rx"
    show "\<exists>r'. route_at (guard_route h a) x = Some r' \<and> other r' = other rx
        \<and> kept h (canLoad rx) (canLoad r') \<and> kept h (canActivate rx) (canActivate r')"
    proof (cases "x = a")
      case True
      then have "rx = r" using x r by simp
      then show ?thesis
        using True kept_load_ref [OF wf, of r] by (simp add: g(1))
    next
      case False
      then show ?thesis
        using x by (simp add: g(1) kept_refl)
    qed
  next
    fix l
    assume "array_at h l = None"
    then show "array_at (guard_route h a) l = None
        \<or> (\<exists>k. array_at (guard_route h a) l = Some (replicate k CoreRedirectGuard))"
      by (auto simp: g(2) guards_or_empty_def)
  next
    fix l gs
    assume s: "array_at h l = Some gs"
    show "\<exists>k. array_at (guard_route h a) l = Some (gs @ replicate k CoreRedirectGuard)"
    proof (cases "l = load_ref h r \<or> l = activate_ref h r")
      case True
      then show ?thesis
        using s by (auto simp: g(2) guards_or_empty_def)
    next
      case False
      then have "array_at (guard_route h a) l = Some (gs @ replicate 0 CoreRedirectGuard)"
        using s by (simp add: g(2))
      then show ?thesis by blast
    qed
  qed
  show "appended h (guard_route h a) a"
  proof -
    obtain k1 where k1: "pushes h r (load_ref h r) = Suc k1"
      by (cases "pushes h r (load_ref h r)") (auto simp: pushes_def)
    obtain k2 where k2: "pushes h r (activate_ref h r) = Suc k2"
      by (cases "pushes h r (activate_ref h r)") (auto simp: pushes_def)
    have "route_at (guard_route h a) a
        = Some (r\<lparr>canLoad := Some (load_ref h r), canActivate := Some (activate_ref h r)\<rparr>)"
      by (simp add: g(1))
    moreover have "array_at (guard_route h a) (load_ref h r)
        = Some (guards_or_empty (array_at h (load_ref h r)) @ replicate (Suc k1) CoreRedirectGuard)"
      using k1 by (simp add: g(2))
    moreover have "array_at (guard_route h a) (activate_ref h r)
        = Some (guards_or_empty (array_at h (activate_ref h r))
                @ replicate (Suc k2) CoreRedirectGuard)"
      using k2 by (simp add: g(2))
    ultimately show ?thesis
      unfolding appended_def
      by (intro exI [of _ "r\<lparr>canLoad := Some (load_ref h r), canActivate := Some (activate_ref h r)\<rparr>"]
          exI [of _ "load_ref h r"] exI [of _ "activate_ref h r"] exI [of _ k1] exI [of _ k2])
        simp
  qed
qed

lemma fold_guard_route_grows:
  assumes "well_formed h" and "set as \<subseteq> dom (route_at h)"
  shows "well_formed (fold (\<lambda>a h'. guard_route h' a) as h)
       \<and> grows h (fold (\<lambda>a h'. guard_route h' a) as h)
       \<and> (\<forall>a \<in> set as. appended h (fold (\<lambda>a h'. guard_route h' a) as h) a)"
  using assms
proof (induction as arbitrary: h)
  case Nil
  then show ?case by (simp add: grows_refl)
next
  case (Cons a as)
  obtain r where r: "route_at h a = Some r"
    using Cons.prems(2) by auto
  let ?h1 = "guard_route h a"
  note st = guard_route_step [OF Cons.prems(1) r]
  have "set as \<subseteq> dom (route_at ?h1)"
  proof
    fix x
    assume "x \<in> set as"
    then obtain rx where "route_at h x = Some rx"
      using Cons.prems(2) by auto
    from grows_route [OF st(2) this] show "x \<in> dom (route_at ?h1)"
      by auto
  qed
  note ih = Cons.IH [OF st(1) this]
  have g: "grows h (fold (\<lambda>a h'. guard_route h' a) as ?h1)"
    using grows_trans [OF st(2)] ih by blast
  have a: "appended h (fold (\<lambda>a h'. guard_route h' a) as ?h1) a"
    using appended_then_grows [OF st(3)] ih by blast
  have b: "appended h (fold (\<lambda>a h'. guard_route h' a) as ?h1) x" if "x \<in> set as" for x
    using grows_then_appended [OF st(2)] ih that by blast
  show ?case
    using ih g a b by auto
qed

lemma appended_view:
  assumes wf: "well_formed h" and g: "grows h h'" and a: "appended h h' x"
      and r: "route_at h x = Some r"
  shows "\<exists>k1 k2. view h' x = map_option (guarded_times (Suc k1) (Suc k2)) (view h x)"
proof -
  from a obtain r' l1 l2 k1 k2 where r': "route_at h' x = Some r'"
      "canLoad r' = Some l1" "canActivate r' = Some l2"
    and a1: "array_at h' l1
        = Some (guards_or_empty (array_at h l1) @ replicate (Suc k1) CoreRedirectGuard)"
    and a2: "array_at h' l2
        = Some (guards_or_empty (array_at h l2) @ replicate (Suc k2) CoreRedirectGuard)"
    unfolding appended_def by blast
  obtain r'' where r'': "route_at h' x = Some r''" "other r'' = other r"
      "kept h (canLoad r) (canLoad r'')" "kept h (canActivate r) (canActivate r'')"
    using grows_route [OF g r] by blast
  have same: "r'' = r'"
    using r' r'' by simp
  have c1: "guards_or_empty (array_at h l1) = guards_or_empty (deref h (canLoad r))"
    using r''(3) r'(2) unfolding same
    by (cases "canLoad r") (auto simp: kept_def deref_def guards_or_empty_def)
  have c2: "guards_or_empty (array_at h l2) = guards_or_empty (deref h (canActivate r))"
    using r''(4) r'(3) unfolding same
    by (cases "canActivate r") (auto simp: kept_def deref_def guards_or_empty_def)
  have "view h' x = map_option (guarded_times (Suc k1) (Suc k2)) (view h x)"
    using r r' r''(2) a1 a2 c1 c2 unfolding same
    by (simp add: view_def guarded_times_def deref_def)
  then show ?thesis by blast
qed

lemma three_routes_ok:
  "well_formed three_routes" "unshared three_routes"
  by (auto simp: well_formed_def unshared_def uses_def three_routes_def split: if_splits)

lemma shared_route_ok: "well_formed shared_route"
  by (auto simp: well_formed_def uses_def shared_route_def split: if_splits)

text \<open>
  Claim C10.  In a well-formed store, for any contributions whose routes exist:
  \<open>buildAppRoutes\<close> returns exactly the flattened contributions, the same routes in
  their order; every one of them then has both guard lists, each being what it was
  (empty when it was absent) followed by \<open>CoreRedirectGuard\<close>, and its other fields are
  what they were.  The guard is there at least once; when no route is contributed twice
  and no guard array is shared, it is appended exactly once to either list, and the
  routes that were not contributed are as they were.
\<close>

theorem buildAppRoutes_adds_guard:
  assumes "well_formed h" and "set (flatten contributed) \<subseteq> dom (route_at h)"
  shows "snd (buildAppRoutes h contributed) = flatten contributed
       \<and> (\<forall>a \<in> set (flatten contributed). \<exists>k1 k2.
             view (fst (buildAppRoutes h contributed)) a
               = map_option (guarded_times (Suc k1) (Suc k2)) (view h a))
       \<and> (unshared h \<and> distinct (flatten contributed) \<longrightarrow>
             (\<forall>a \<in> set (flatten contributed).
                view (fst (buildAppRoutes h contributed)) a = map_option guarded (view h a))
             \<and> (\<forall>a. a \<notin> set (flatten contributed) \<longrightarrow>
                  view (fst (buildAppRoutes h contributed)) a = view h a))"
proof (intro conjI impI)
  show "snd (buildAppRoutes h contributed) = flatten contributed"
    by (simp add: buildAppRoutes_def Let_def)
next
  note f = fold_guard_route_grows [OF assms]
  show "\<forall>a \<in> set (flatten contributed). \<exists>k1 k2.
             view (fst (buildAppRoutes h contributed)) a
               = map_option (guarded_times (Suc k1) (Suc k2)) (view h a)"
  proof
    fix a
    assume a: "a \<in> set (flatten contributed)"
    then obtain r where r: "route_at h a = Some r"
      using assms(2) by auto
    have "appended h (fold (\<lambda>a h'. guard_route h' a) (flatten contributed) h) a"
      using f a by blast
    from appended_view [OF assms(1) _ this r] f
    show "\<exists>k1 k2. view (fst (buildAppRoutes h contributed)) a
               = map_option (guarded_times (Suc k1) (Suc k2)) (view h a)"
      by (simp add: buildAppRoutes_def Let_def)
  qed
next
  assume u: "unshared h \<and> distinct (flatten contributed)"
  note f = fold_guard_route [OF assms(1) u [THEN conjunct1] u [THEN conjunct2] assms(2)]
  show "\<forall>a \<in> set (flatten contributed).
                view (fst (buildAppRoutes h contributed)) a = map_option guarded (view h a)"
    using f by (simp add: buildAppRoutes_def Let_def)
  show "\<forall>a. a \<notin> set (flatten contributed) \<longrightarrow>
                  view (fst (buildAppRoutes h contributed)) a = view h a"
    using f by (simp add: buildAppRoutes_def Let_def)
qed

theorem buildAppRoutes_adds_guard_witness:
  "well_formed three_routes
   \<and> unshared three_routes
   \<and> distinct (flatten [[0], [1, 2 :: nat]])
   \<and> view three_routes 0 = Some (Some [OtherGuard ''auth''], None, ''home'')
   \<and> view three_routes 1 = Some (None, None, ''login'')
   \<and> snd (buildAppRoutes three_routes [[0], [1, 2]]) = [0, 1, 2]
   \<and> view (fst (buildAppRoutes three_routes [[0], [1, 2]])) 0
       = Some (Some [OtherGuard ''auth'', CoreRedirectGuard], Some [CoreRedirectGuard], ''home'')
   \<and> view (fst (buildAppRoutes three_routes [[0], [1, 2]])) 1
       = Some (Some [CoreRedirectGuard], Some [CoreRedirectGuard], ''login'')
   \<and> view (fst (buildAppRoutes three_routes [[0], [1, 2]])) 2
       = Some (Some [CoreRedirectGuard], Some [OtherGuard ''site'', CoreRedirectGuard], ''settings'')
   \<and> well_formed shared_route
   \<and> (\<exists>k1 k2. view (fst (buildAppRoutes shared_route [[0], [0]])) 0
         = map_option (guarded_times (Suc k1) (Suc k2)) (view shared_route 0))
   \<and> view (fst (buildAppRoutes shared_route [[0], [0]])) 0
       = Some (Some (OtherGuard ''auth'' # replicate 4 CoreRedirectGuard),
               Some (OtherGuard ''auth'' # replicate 4 CoreRedirectGuard), ''home'')"
proof -
  have d: "distinct (flatten [[0], [1, 2 :: nat]])"
    by (simp add: flatten_def)
  have s: "set (flatten [[0], [1, 2 :: nat]]) \<subseteq> dom (route_at three_routes)"
    by (simp add: flatten_def three_routes_def)
  have s2: "set (flatten [[0], [0 :: nat]]) \<subseteq> dom (route_at shared_route)"
    by (simp add: flatten_def shared_route_def)
  have v0: "view three_routes 0 = Some (Some [OtherGuard ''auth''], None, ''home'')"
    and v1: "view three_routes 1 = Some (None, None, ''login'')"
    and v2: "view three_routes 2 = Some (Some [], Some [OtherGuard ''site''], ''settings'')"
    by (simp_all add: view_def deref_def three_routes_def)
  note t = buildAppRoutes_adds_guard [OF three_routes_ok(1) s]
  note p = t [THEN conjunct2, THEN conjunct2, THEN mp, OF conjI [OF three_routes_ok(2) d],
      THEN conjunct1]
  have m: "0 \<in> set (flatten [[0], [1, 2 :: nat]])" "1 \<in> set (flatten [[0], [1, 2 :: nat]])"
      "2 \<in> set (flatten [[0], [1, 2 :: nat]])"
    by (simp_all add: flatten_def)
  have r0: "view (fst (buildAppRoutes three_routes [[0], [1, 2]])) 0
       = Some (Some [OtherGuard ''auth'', CoreRedirectGuard], Some [CoreRedirectGuard], ''home'')"
    using p [THEN bspec, OF m(1)] unfolding v0
    by (simp add: guarded_def with_guard_def)
  have r1: "view (fst (buildAppRoutes three_routes [[0], [1, 2]])) 1
       = Some (Some [CoreRedirectGuard], Some [CoreRedirectGuard], ''login'')"
    using p [THEN bspec, OF m(2)] unfolding v1
    by (simp add: guarded_def with_guard_def)
  have r2: "view (fst (buildAppRoutes three_routes [[0], [1, 2]])) 2
       = Some (Some [CoreRedirectGuard], Some [OtherGuard ''site'', CoreRedirectGuard], ''settings'')"
    using p [THEN bspec, OF m(3)] unfolding v2
    by (simp add: guarded_def with_guard_def)
  have l: "snd (buildAppRoutes three_routes [[0], [1, 2]]) = [0, 1, 2]"
    using t [THEN conjunct1] by (simp add: flatten_def)
  note t2 = buildAppRoutes_adds_guard [OF shared_route_ok s2]
  have m2: "0 \<in> set (flatten [[0], [0 :: nat]])"
    by (simp add: flatten_def)
  note e = t2 [THEN conjunct2, THEN conjunct1, THEN bspec, OF m2]
  have four: "view (fst (buildAppRoutes shared_route [[0], [0]])) 0
       = Some (Some (OtherGuard ''auth'' # replicate 4 CoreRedirectGuard),
               Some (OtherGuard ''auth'' # replicate 4 CoreRedirectGuard), ''home'')"
    by (simp add: buildAppRoutes_def flatten_def shared_route_def steps view_def deref_def
        numeral_eq_Suc)
  show ?thesis
    by (intro conjI three_routes_ok d v0 v1 l r0 r1 r2 shared_route_ok e four)
qed

end
